theory Spec2Isabelle
  imports Main
begin

section \<open>Data model\<close>

text \<open>
  SQLAir.cpp works on the classes \<open>CSV\<close> and \<open>CSVRow\<close>. A \<open>CSVRow\<close> is a vector of
  strings; a \<open>CSV\<close> is the vector of its rows together with the column names. The
  mutexes of the rows and of the table carry no data: the functions below are the
  behaviour of one call that runs without interference from other threads, apart from
  the wake-ups of a waiting query, which are an explicit argument.
\<close>

type_synonym StrVec = "string list"

type_synonym CSVRow = "string list"

record CSV =
  columns :: StrVec
  rows :: "CSVRow list"

text \<open>
  What a call can end with instead of a result: \<open>std::out_of_range\<close> thrown by
  \<open>vector::at\<close> or \<open>unordered_map::at\<close>, the exception of \<open>CSV::getColumnIndex\<close> for a
  column the table does not have, an \<open>Exp\<close> with its message, and \<open>Undefined\<close> where the
  C++ program has undefined behaviour (an unchecked \<open>values[i]\<close> past the end, or the
  overflow of an \<open>int\<close> counter), after which nothing is promised.
\<close>

datatype error = OutOfRange | UnknownColumn string | Exp string | Undefined

text \<open>The values inserted into an output stream with \<open><<\<close>, in order.\<close>

datatype tok = OStr string | OStrVec StrVec | OInt int | OEndl

text \<open>
  \<open>SQLAirBase::matches(field, cond, value)\<close>, the evaluator of one where-clause, is
  not part of SQLAir.cpp: it is a parameter of every function that calls it. The C++
  parameters \<open>value\<close> and \<open>values\<close> are written \<open>val\<close> and \<open>vals\<close> below.
\<close>

type_synonym matcher = "string \<Rightarrow> string \<Rightarrow> string \<Rightarrow> bool"

definition INT_MAX :: int where
  "INT_MAX = 2147483647"

definition TAB :: string where
  "TAB = [CHR 0x09]"

definition NL :: string where
  "NL = [CHR 0x0A]"

text \<open>\<open>v.at(i)\<close> with an \<open>int\<close> index: a negative \<open>int\<close> converts to a huge \<open>size_t\<close>.\<close>

definition vec_at :: "'a list \<Rightarrow> int \<Rightarrow> error + 'a" where
  "vec_at v i = (if 0 \<le> i \<and> i < int (length v) then Inr (v ! nat i) else Inl OutOfRange)"

fun index_of :: "string \<Rightarrow> StrVec \<Rightarrow> nat option" where
  "index_of c [] = None"
| "index_of c (x # xs) = (if x = c then Some 0 else map_option Suc (index_of c xs))"

text \<open>
  Modelled from the spec: \<open>CSV::getColumnIndex\<close> is declared in CSV.h, which is not
  among the sources. The spec gives a table "a mapping from column name to column
  index (names unique)" and lists an unknown column among the malformed requests that
  end in an error.
\<close>

definition getColumnIndex :: "CSV \<Rightarrow> string \<Rightarrow> error + int" where
  "getColumnIndex csv colName =
     (case index_of colName (columns csv) of
        None \<Rightarrow> Inl (UnknownColumn colName)
      | Some j \<Rightarrow> Inr (int j))"

text \<open>
  Modelled from the spec: \<open>CSV::getColumnNames\<close> is declared in CSV.h, which is not
  among the sources. The spec has \<open>*\<close> stand for "all table columns in their defined
  order".
\<close>

definition getColumnNames :: "CSV \<Rightarrow> StrVec" where
  "getColumnNames csv = columns csv"

section \<open>Select\<close>

text \<open>
  The test \<open>whereColIdx == -1 || matches(row.at(whereColIdx), cond, value)\<close> of both
  row loops; \<open>||\<close> does not evaluate \<open>row.at\<close> when there is no where-clause.
\<close>

definition rowMatches :: "matcher \<Rightarrow> int \<Rightarrow> string \<Rightarrow> string \<Rightarrow> CSVRow \<Rightarrow> error + bool" where
  "rowMatches M whereColIdx cond val row =
     (if whereColIdx = - 1 then Inr True
      else case vec_at row whereColIdx of
             Inl e \<Rightarrow> Inl e
           | Inr field \<Rightarrow> Inr (M field cond val))"

text \<open>The inner loop of \<open>processSelectRow\<close> over the column names (lines 50-54).\<close>

fun printCols :: "CSV \<Rightarrow> CSVRow \<Rightarrow> StrVec \<Rightarrow> string \<Rightarrow> string \<Rightarrow> error + string" where
  "printCols csv printRow [] delim toPrint = Inr toPrint"
| "printCols csv printRow (colName # colNames) delim toPrint =
     (case getColumnIndex csv colName of
        Inl e \<Rightarrow> Inl e
      | Inr j \<Rightarrow>
          (case vec_at printRow j of
             Inl e \<Rightarrow> Inl e
           | Inr field \<Rightarrow> printCols csv printRow colNames TAB (toPrint @ delim @ field)))"

text \<open>
  The loop of \<open>processSelectRow\<close> over the rows, with \<open>toPrint\<close> and \<open>count\<close> as it runs;
  \<open>count++\<close> on an \<open>int\<close> that holds \<open>INT_MAX\<close> is undefined.
\<close>

fun selectRows ::
  "matcher \<Rightarrow> CSV \<Rightarrow> StrVec \<Rightarrow> int \<Rightarrow> string \<Rightarrow> string \<Rightarrow> CSVRow list \<Rightarrow> string \<Rightarrow> int
     \<Rightarrow> error + (string \<times> int)" where
  "selectRows M csv colNames whereColIdx cond val [] toPrint count = Inr (toPrint, count)"
| "selectRows M csv colNames whereColIdx cond val (row # rest) toPrint count =
     (case rowMatches M whereColIdx cond val row of
        Inl e \<Rightarrow> Inl e
      | Inr False \<Rightarrow> selectRows M csv colNames whereColIdx cond val rest toPrint count
      | Inr True \<Rightarrow>
          (case printCols csv row colNames [] toPrint of
             Inl e \<Rightarrow> Inl e
           | Inr toPrint' \<Rightarrow>
               if count = INT_MAX then Inl Undefined
               else selectRows M csv colNames whereColIdx cond val rest
                      (toPrint' @ NL) (count + 1)))"

definition processSelectRow ::
  "matcher \<Rightarrow> StrVec \<Rightarrow> string \<Rightarrow> CSV \<Rightarrow> int \<Rightarrow> string \<Rightarrow> string \<Rightarrow> error + (string \<times> int)" where
  "processSelectRow M colNames toPrint csv whereColIdx cond val =
     selectRows M csv colNames whereColIdx cond val (rows csv) toPrint 0"

text \<open>
  The wait loop of \<open>selectQuery\<close> (lines 78-83). Each pass suspends on the table's
  condition variable and scans again once woken. \<open>wakes\<close> lists the rows of the table
  as the scans after the successive wake-ups read them; when the list is used up the
  query is still suspended, and the result is \<open>None\<close>.
\<close>

fun selectWait ::
  "matcher \<Rightarrow> CSV \<Rightarrow> StrVec \<Rightarrow> int \<Rightarrow> string \<Rightarrow> string \<Rightarrow> CSVRow list list \<Rightarrow> string
     \<Rightarrow> (error + (string \<times> int)) option" where
  "selectWait M csv colNames whereColIdx cond val [] toPrint = None"
| "selectWait M csv colNames whereColIdx cond val (rs # wakes) toPrint =
     (case processSelectRow M colNames toPrint (csv\<lparr>rows := rs\<rparr>) whereColIdx cond val of
        Inl e \<Rightarrow> Some (Inl e)
      | Inr (toPrint', count) \<Rightarrow>
          if count < 1 then selectWait M csv colNames whereColIdx cond val wakes toPrint'
          else Some (Inr (toPrint', count)))"

text \<open>\<open>selectQuery\<close> from line 73 on, with the column list already resolved.\<close>

definition selectResolved ::
  "matcher \<Rightarrow> CSV \<Rightarrow> CSVRow list list \<Rightarrow> bool \<Rightarrow> StrVec \<Rightarrow> int \<Rightarrow> string \<Rightarrow> string
     \<Rightarrow> (error + tok list) option" where
  "selectResolved M csv wakes mustWait colNames whereColIdx cond val =
     (case processSelectRow M colNames [] csv whereColIdx cond val of
        Inl e \<Rightarrow> Some (Inl e)
      | Inr (toPrint, count) \<Rightarrow>
          (case (if mustWait \<and> count < 1
                 then selectWait M csv colNames whereColIdx cond val wakes toPrint
                 else Some (Inr (toPrint, count))) of
             None \<Rightarrow> None
           | Some (Inl e) \<Rightarrow> Some (Inl e)
           | Some (Inr (toPrint', count')) \<Rightarrow>
               Some (Inr ((if count' > 0 then [OStrVec colNames, OStr NL, OStr toPrint'] else [])
                          @ [OInt count', OStr '' row(s) selected.'', OEndl]))))"

definition selectQuery ::
  "matcher \<Rightarrow> CSV \<Rightarrow> CSVRow list list \<Rightarrow> bool \<Rightarrow> StrVec \<Rightarrow> int \<Rightarrow> string \<Rightarrow> string
     \<Rightarrow> (error + tok list) option" where
  "selectQuery M csv wakes mustWait colNames whereColIdx cond val =
     (case vec_at colNames 0 of
        Inl e \<Rightarrow> Some (Inl e)
      | Inr first \<Rightarrow>
          selectResolved M csv wakes mustWait
            (if first = ''*'' then getColumnNames csv else colNames) whereColIdx cond val)"

section \<open>Update\<close>

text \<open>
  The inner loop of \<open>processUpdateRow\<close> (lines 102-104): \<open>i\<close> runs over \<open>colNames\<close> and
  reads \<open>values[i]\<close> unchecked. In \<open>row.at(...) = values[i]\<close> the right operand is
  evaluated first. The row is returned as far as it was written.
\<close>

fun writeCols :: "CSV \<Rightarrow> StrVec \<Rightarrow> StrVec \<Rightarrow> CSVRow \<Rightarrow> CSVRow \<times> error option" where
  "writeCols csv [] vals row = (row, None)"
| "writeCols csv (colName # colNames) [] row = (row, Some Undefined)"
| "writeCols csv (colName # colNames) (v # vals) row =
     (case getColumnIndex csv colName of
        Inl e \<Rightarrow> (row, Some e)
      | Inr j \<Rightarrow>
          if 0 \<le> j \<and> j < int (length row)
          then writeCols csv colNames vals (row[nat j := v])
          else (row, Some OutOfRange))"

text \<open>
  The loop of \<open>processUpdateRow\<close> over the rows. The rows are updated in place, so the
  rows written before an exception stay written: the function returns the rows as
  the loop leaves them together with the count or the error. The count overflows as
  in \<open>selectRows\<close>.
\<close>

fun updateRows ::
  "matcher \<Rightarrow> CSV \<Rightarrow> int \<Rightarrow> StrVec \<Rightarrow> string \<Rightarrow> string \<Rightarrow> StrVec \<Rightarrow> CSVRow list \<Rightarrow> int
     \<Rightarrow> CSVRow list \<times> (error + int)" where
  "updateRows M csv whereColIdx colNames cond val vals [] count = ([], Inr count)"
| "updateRows M csv whereColIdx colNames cond val vals (row # rest) count =
     (case rowMatches M whereColIdx cond val row of
        Inl e \<Rightarrow> (row # rest, Inl e)
      | Inr False \<Rightarrow>
          (case updateRows M csv whereColIdx colNames cond val vals rest count of
             (rest', r) \<Rightarrow> (row # rest', r))
      | Inr True \<Rightarrow>
          (case writeCols csv colNames vals row of
             (row', Some e) \<Rightarrow> (row' # rest, Inl e)
           | (row', None) \<Rightarrow>
               if count = INT_MAX then (row' # rest, Inl Undefined)
               else (case updateRows M csv whereColIdx colNames cond val vals rest (count + 1) of
                       (rest', r) \<Rightarrow> (row' # rest', r))))"

definition processUpdateRow ::
  "matcher \<Rightarrow> CSV \<Rightarrow> int \<Rightarrow> StrVec \<Rightarrow> string \<Rightarrow> string \<Rightarrow> StrVec \<Rightarrow> CSV \<times> (error + int)" where
  "processUpdateRow M csv whereColIdx colNames cond val vals =
     (case updateRows M csv whereColIdx colNames cond val vals (rows csv) 0 of
        (rs, r) \<Rightarrow> (csv\<lparr>rows := rs\<rparr>, r))"

text \<open>
  The wait loop of \<open>updateQuery\<close> (lines 125-130), with the wake-ups as in
  \<open>selectWait\<close>. A pass that counts no row has written none.
\<close>

fun updateWait ::
  "matcher \<Rightarrow> CSV \<Rightarrow> int \<Rightarrow> StrVec \<Rightarrow> string \<Rightarrow> string \<Rightarrow> StrVec \<Rightarrow> CSVRow list list
     \<Rightarrow> (CSV \<times> (error + int)) option" where
  "updateWait M csv whereColIdx colNames cond val vals [] = None"
| "updateWait M csv whereColIdx colNames cond val vals (rs # wakes) =
     (case processUpdateRow M (csv\<lparr>rows := rs\<rparr>) whereColIdx colNames cond val vals of
        (csv', Inl e) \<Rightarrow> Some (csv', Inl e)
      | (csv', Inr count) \<Rightarrow>
          if count < 1 then updateWait M csv' whereColIdx colNames cond val vals wakes
          else Some (csv', Inr count))"

text \<open>
  What a call of \<open>updateQuery\<close> leaves behind: the table, whether
  \<open>csvCondVar.notify_all()\<close> was called, and the exception or the output.
\<close>

record update_result =
  table :: CSV
  notified :: bool
  outcome :: "error + tok list"

text \<open>\<open>updateQuery\<close> from line 122 on, with the column list already resolved.\<close>

definition updateResolved ::
  "matcher \<Rightarrow> CSV \<Rightarrow> CSVRow list list \<Rightarrow> bool \<Rightarrow> StrVec \<Rightarrow> StrVec \<Rightarrow> int \<Rightarrow> string \<Rightarrow> string
     \<Rightarrow> update_result option" where
  "updateResolved M csv wakes mustWait colNames vals whereColIdx cond val =
     (case processUpdateRow M csv whereColIdx colNames cond val vals of
        (csv1, Inl e) \<Rightarrow> Some \<lparr>table = csv1, notified = False, outcome = Inl e\<rparr>
      | (csv1, Inr count) \<Rightarrow>
          (case (if mustWait \<and> count < 1
                 then updateWait M csv1 whereColIdx colNames cond val vals wakes
                 else Some (csv1, Inr count)) of
             None \<Rightarrow> None
           | Some (csv2, Inl e) \<Rightarrow> Some \<lparr>table = csv2, notified = False, outcome = Inl e\<rparr>
           | Some (csv2, Inr count') \<Rightarrow>
               Some \<lparr>table = csv2, notified = (count' > 0),
                     outcome = Inr [OInt count', OStr '' row(s) updated.'', OEndl]\<rparr>))"

definition updateQuery ::
  "matcher \<Rightarrow> CSV \<Rightarrow> CSVRow list list \<Rightarrow> bool \<Rightarrow> StrVec \<Rightarrow> StrVec \<Rightarrow> int \<Rightarrow> string \<Rightarrow> string
     \<Rightarrow> update_result option" where
  "updateQuery M csv wakes mustWait colNames vals whereColIdx cond val =
     (case vec_at colNames 0 of
        Inl e \<Rightarrow> Some \<lparr>table = csv, notified = False, outcome = Inl e\<rparr>
      | Inr first \<Rightarrow>
          updateResolved M csv wakes mustWait
            (if first = ''*'' then getColumnNames csv else colNames) vals whereColIdx cond val)"

section \<open>The table registry\<close>

text \<open>
  What \<open>loadAndGet\<close> and \<open>saveQuery\<close> use from outside SQLAir.cpp: the helpers
  \<open>Helper::breakDownURL\<close> (host, port, path) and \<open>Helper::trim\<close>, the network
  (\<open>httpGet host port path\<close> is the response to the GET request as the lines that
  \<open>std::getline\<close> yields, or \<open>None\<close> when the stream is not good after connecting and
  sending), the codec \<open>CSV::load\<close> (it reads a stream, \<open>None\<close> for one that failed to
  open, and may throw) and \<open>CSV::save\<close>, and whether \<open>std::ofstream\<close> can open a path.
  The local files are a map from path to lines.
\<close>

type_synonym disk = "string \<rightharpoonup> string list"

record world =
  breakDownURL :: "string \<Rightarrow> string \<times> string \<times> string"
  trim :: "string \<Rightarrow> string"
  httpGet :: "string \<Rightarrow> string \<Rightarrow> string \<Rightarrow> string list option"
  csvLoad :: "string list option \<Rightarrow> error + CSV"
  csvSave :: "CSV \<Rightarrow> string list"
  writable :: "string \<Rightarrow> bool"

text \<open>\<open>s.find(p) == 0\<close> and \<open>s.find(p) != std::string::npos\<close>.\<close>

definition startsWith :: "string \<Rightarrow> string \<Rightarrow> bool" where
  "startsWith p s = (take (length p) s = p)"

fun contains :: "string \<Rightarrow> string \<Rightarrow> bool" where
  "contains p [] = (p = [])"
| "contains p (c # cs) = (startsWith p (c # cs) \<or> contains p cs)"

text \<open>The loop of \<open>setupDownload\<close> that reads up to and including the blank line.\<close>

fun skipHeaders :: "string list \<Rightarrow> string list" where
  "skipHeaders [] = []"
| "skipHeaders (str # rest) =
     (if str \<noteq> [] \<and> str \<noteq> [CHR 0x0D] then skipHeaders rest else rest)"

text \<open>\<open>setupDownload\<close> leaves the stream at the body of the response, or throws.\<close>

definition setupDownload :: "world \<Rightarrow> string \<Rightarrow> string \<Rightarrow> string \<Rightarrow> error + string list" where
  "setupDownload w hostName path port =
     (case httpGet w hostName port path of
        None \<Rightarrow> Inl (Exp (''Unable to connect to '' @ hostName @ '' at port '' @ port))
      | Some response \<Rightarrow>
          (let line = (case response of [] \<Rightarrow> [] | l # _ \<Rightarrow> l) in
           if \<not> contains ''200 OK'' line
           then Inl (Exp (''Error ('' @ trim w line @ '') getting '' @ path @
                          '' from '' @ hostName @ '' at port '' @ port))
           else Inr (skipHeaders (tl response))))"

text \<open>Lines 232-246 of \<open>loadAndGet\<close>: the load outside the critical sections.\<close>

definition loadSource :: "world \<Rightarrow> disk \<Rightarrow> string \<Rightarrow> error + CSV" where
  "loadSource w d fileOrURL =
     (if startsWith ''http://'' fileOrURL
      then (case breakDownURL w fileOrURL of
              (host, port, path) \<Rightarrow>
                (case setupDownload w host path port of
                   Inl e \<Rightarrow> Inl e
                 | Inr data \<Rightarrow> csvLoad w (Some data)))
      else csvLoad w (d fileOrURL))"

text \<open>
  The members \<open>recentCSV\<close> and \<open>inMemoryCSV\<close>. A \<open>CSV&\<close> returned by \<open>loadAndGet\<close>
  refers to the element of the \<open>unordered_map\<close> under the key, which stays in place for
  the life of the map: the reference is modelled by the key. The call is followed
  without other threads running between its two critical sections.
\<close>

record registry =
  recentCSV :: string
  inMemoryCSV :: "string \<rightharpoonup> CSV"

definition loadAndGet :: "world \<Rightarrow> disk \<Rightarrow> string \<Rightarrow> registry \<Rightarrow> registry \<times> (error + string)" where
  "loadAndGet w d fileOrURL0 reg =
     (let fileOrURL = (if fileOrURL0 = [] then recentCSV reg else fileOrURL0);
          reg1 = reg\<lparr>recentCSV := fileOrURL\<rparr>
      in case inMemoryCSV reg1 fileOrURL of
           Some resident \<Rightarrow> (reg1, Inr fileOrURL)
         | None \<Rightarrow>
             (case loadSource w d fileOrURL of
                Inl e \<Rightarrow> (reg1, Inl e)
              | Inr csv \<Rightarrow>
                  (reg1\<lparr>inMemoryCSV := (inMemoryCSV reg1)(fileOrURL \<mapsto> csv)\<rparr>, Inr fileOrURL)))"

text \<open>
  \<open>saveQuery\<close>: the constructor of \<open>std::ofstream\<close> creates or truncates the file when
  it can open it, and only then \<open>inMemoryCSV.at\<close> looks the table up.
\<close>

definition saveQuery :: "world \<Rightarrow> registry \<Rightarrow> disk \<Rightarrow> disk \<times> (error + tok list)" where
  "saveQuery w reg d =
     (if recentCSV reg = [] \<or> startsWith ''http://'' (recentCSV reg)
      then (d, Inl (Exp ''Saving CSV to an URL using POST is not implemented''))
      else
        (let opened = writable w (recentCSV reg);
             d1 = (if opened then d(recentCSV reg \<mapsto> []) else d)
         in case inMemoryCSV reg (recentCSV reg) of
              None \<Rightarrow> (d1, Inl OutOfRange)
            | Some csv \<Rightarrow>
                (if opened then d1(recentCSV reg \<mapsto> csvSave w csv) else d1,
                 Inr [OStr (recentCSV reg), OStr ('' saved.'' @ NL)])))"

text \<open>
  A sequence of calls of \<open>loadAndGet\<close>, each with the files and the network as they
  are at its time, and the registry they leave.
\<close>

fun resolveAll :: "(world \<times> disk \<times> string) list \<Rightarrow> registry \<Rightarrow> registry" where
  "resolveAll [] reg = reg"
| "resolveAll ((w, d, fileOrURL) # calls) reg =
     resolveAll calls (fst (loadAndGet w d fileOrURL reg))"

section \<open>The connection scheduler\<close>

text \<open>
  \<open>runServer\<close> and the end of \<open>serveClient\<close> as threads that take turns. The scheduler
  is at one of the points of its loop: blocked in \<open>accept\<close>; in \<open>thrCond.wait\<close>,
  evaluating the predicate \<open>numThreads < maxThr\<close>; with the predicate false, about to
  suspend on the condition variable, and suspended; with the predicate true, about to
  create the thread, and about to run \<open>numThreads++\<close>. A worker serves its client, runs
  \<open>numThreads--\<close>, calls \<open>thrCond.notify_one()\<close> and ends. The counter is declared in
  SQLAir.h, which is not among the sources; \<open>++\<close> and \<open>--\<close> are each a read followed
  by a write, so that the steps cover an atomic counter (the write directly after the
  read) as well as a plain \<open>int\<close> whose updates interleave.
\<close>

datatype sched =
  Accepting | Waiting | Suspending | Blocked | Spawning | Incrementing | Storing int

datatype worker = Serving | Decrementing int | Notifying | Finished

record server =
  numThreads :: int
  scheduler :: sched
  workers :: "worker list"

text \<open>
  One step of the scheduler. Suspended on the condition variable it has no step of
  its own: it goes on when it is notified or woken spuriously.
\<close>

definition schedulerStep :: "int \<Rightarrow> server \<Rightarrow> server option" where
  "schedulerStep maxThr s =
     (case scheduler s of
        Accepting \<Rightarrow> Some (s\<lparr>scheduler := Waiting\<rparr>)
      | Waiting \<Rightarrow>
          Some (s\<lparr>scheduler := (if numThreads s < maxThr then Spawning else Suspending)\<rparr>)
      | Suspending \<Rightarrow> Some (s\<lparr>scheduler := Blocked\<rparr>)
      | Blocked \<Rightarrow> None
      | Spawning \<Rightarrow> Some (s\<lparr>scheduler := Incrementing, workers := workers s @ [Serving]\<rparr>)
      | Incrementing \<Rightarrow> Some (s\<lparr>scheduler := Storing (numThreads s)\<rparr>)
      | Storing n \<Rightarrow> Some (s\<lparr>numThreads := n + 1, scheduler := Accepting\<rparr>))"

text \<open>
  \<open>thrCond.notify_one()\<close>: the scheduler is the only thread that waits on \<open>thrCond\<close>;
  suspended, it wakes and evaluates its predicate again, otherwise the call has no
  effect.
\<close>

definition notify_one :: "server \<Rightarrow> server" where
  "notify_one s = (if scheduler s = Blocked then s\<lparr>scheduler := Waiting\<rparr> else s)"

text \<open>One step of worker \<open>i\<close> at the end of \<open>serveClient\<close> (lines 164-165).\<close>

definition workerStep :: "nat \<Rightarrow> server \<Rightarrow> server option" where
  "workerStep i s =
     (if i < length (workers s) then
        (case workers s ! i of
           Serving \<Rightarrow> Some (s\<lparr>workers := (workers s)[i := Decrementing (numThreads s)]\<rparr>)
         | Decrementing n \<Rightarrow> Some (s\<lparr>numThreads := n - 1, workers := (workers s)[i := Notifying]\<rparr>)
         | Notifying \<Rightarrow> Some (notify_one (s\<lparr>workers := (workers s)[i := Finished]\<rparr>))
         | Finished \<Rightarrow> None)
      else None)"

text \<open>
  Modelled from the spec: the initial value of the counter is set in SQLAir.h. The spec
  has it track the active worker tasks, and none is active when \<open>runServer\<close> starts.
\<close>

definition serverStart :: server where
  "serverStart = \<lparr>numThreads = 0, scheduler = Accepting, workers = []\<rparr>"

inductive reachable :: "int \<Rightarrow> server \<Rightarrow> bool" for maxThr :: int where
  start: "reachable maxThr serverStart"
| scheduler: "reachable maxThr s \<Longrightarrow> schedulerStep maxThr s = Some s' \<Longrightarrow> reachable maxThr s'"
| worker: "reachable maxThr s \<Longrightarrow> workerStep i s = Some s' \<Longrightarrow> reachable maxThr s'"
| spurious: "reachable maxThr s \<Longrightarrow> scheduler s = Blocked \<Longrightarrow>
             reachable maxThr (s\<lparr>scheduler := Waiting\<rparr>)"

code_pred reachable .

text \<open>
  A dispatch is the three steps of the scheduler from the creation of the thread to
  the write of the counter, taken in a row; a completion is the three steps of worker
  \<open>i\<close>, from the read of the counter to the end of the thread, taken in a row.
\<close>

definition dispatch :: "int \<Rightarrow> server \<Rightarrow> server option" where
  "dispatch maxThr s =
     Option.bind (Option.bind (schedulerStep maxThr s) (schedulerStep maxThr)) (schedulerStep maxThr)"

definition complete :: "nat \<Rightarrow> server \<Rightarrow> server option" where
  "complete i s = Option.bind (Option.bind (workerStep i s) (workerStep i)) (workerStep i)"

text \<open>The invariant that carries the bound on the counter through every step.\<close>

definition admitted :: "server \<Rightarrow> bool" where
  "admitted s = (scheduler s = Spawning \<or> scheduler s = Incrementing)"

fun workerBelow :: "int \<Rightarrow> worker \<Rightarrow> bool" where
  "workerBelow maxThr (Decrementing n) = (n \<le> maxThr)"
| "workerBelow maxThr w = True"

fun schedBelow :: "int \<Rightarrow> sched \<Rightarrow> bool" where
  "schedBelow maxThr (Storing n) = (n < maxThr)"
| "schedBelow maxThr p = True"

definition counterInv :: "int \<Rightarrow> server \<Rightarrow> bool" where
  "counterInv maxThr s =
     (numThreads s \<le> maxThr
      \<and> list_all (workerBelow maxThr) (workers s)
      \<and> (admitted s \<longrightarrow> numThreads s < maxThr)
      \<and> schedBelow maxThr (scheduler s))"

section \<open>Notions of the specification\<close>

text \<open>
  The words of the specification for what a scan does: which rows a request matches
  (all of them without a where-clause, otherwise those whose designated column
  satisfies the predicate), the line that select prints for a row, and the row that
  update leaves.
\<close>

definition wellFormed :: "CSV \<Rightarrow> bool" where
  "wellFormed csv = (\<forall>row \<in> set (rows csv). length row = length (columns csv))"


definition columnPos :: "CSV \<Rightarrow> string \<Rightarrow> nat" where
  "columnPos csv colName = (case index_of colName (columns csv) of None \<Rightarrow> 0 | Some j \<Rightarrow> j)"

definition isMatched :: "matcher \<Rightarrow> int \<Rightarrow> string \<Rightarrow> string \<Rightarrow> CSVRow \<Rightarrow> bool" where
  "isMatched M whereColIdx cond val row =
     (whereColIdx = - 1 \<or> M (row ! nat whereColIdx) cond val)"

definition matchedRows :: "matcher \<Rightarrow> int \<Rightarrow> string \<Rightarrow> string \<Rightarrow> CSVRow list \<Rightarrow> CSVRow list" where
  "matchedRows M whereColIdx cond val rs = filter (isMatched M whereColIdx cond val) rs"

fun fieldsText :: "string \<Rightarrow> string list \<Rightarrow> string" where
  "fieldsText delim [] = []"
| "fieldsText delim (f # fs) = delim @ f @ fieldsText TAB fs"

definition selectedLine :: "CSV \<Rightarrow> StrVec \<Rightarrow> CSVRow \<Rightarrow> string" where
  "selectedLine csv colNames row =
     fieldsText [] (map (\<lambda>c. row ! columnPos csv c) colNames) @ NL"

fun assignCols :: "CSV \<Rightarrow> StrVec \<Rightarrow> StrVec \<Rightarrow> CSVRow \<Rightarrow> CSVRow" where
  "assignCols csv (c # cs) (v # vs) row = assignCols csv cs vs (row[columnPos csv c := v])"
| "assignCols csv cs vs row = row"

text \<open>The table of the specification's scenarios, and surroundings to run it in.\<close>

definition people :: CSV where
  "people = \<lparr>columns = [''name'', ''age''], rows = [[''Ann'', ''30''], [''Bob'', ''25'']]\<rparr>"

definition fieldEquals :: matcher where
  "fieldEquals field cond v = (field = v)"

definition offline :: world where
  "offline = \<lparr>breakDownURL = (\<lambda>url. ([], [], [])), trim = (\<lambda>s. s),
               httpGet = (\<lambda>host port path. None),
               csvLoad = (\<lambda>data. case data of None \<Rightarrow> Inl (Exp ''no data'') | Some ls \<Rightarrow> Inr people),
               csvSave = (\<lambda>csv. []), writable = (\<lambda>path. True)\<rparr>"

definition emptyRegistry :: registry where
  "emptyRegistry = \<lparr>recentCSV = [], inMemoryCSV = Map.empty\<rparr>"

section \<open>Scanning the rows\<close>

lemma index_of_mem:
  "c \<in> set xs \<Longrightarrow> \<exists>j. index_of c xs = Some j \<and> j < length xs"
  by (induction xs) auto

lemma getColumnIndex_known:
  assumes "c \<in> set (columns csv)"
  shows "getColumnIndex csv c = Inr (int (columnPos csv c)) \<and> columnPos csv c < length (columns csv)"
  using index_of_mem [OF assms] by (auto simp: getColumnIndex_def columnPos_def)

lemma printCols_known:
  "set colNames \<subseteq> set (columns csv) \<Longrightarrow> length row = length (columns csv) \<Longrightarrow>
   printCols csv row colNames delim toPrint =
     Inr (toPrint @ fieldsText delim (map (\<lambda>c. row ! columnPos csv c) colNames))"
proof (induction colNames arbitrary: delim toPrint)
  case Nil
  show ?case by simp
next
  case (Cons c cs)
  from Cons.prems have c: "c \<in> set (columns csv)" and cs: "set cs \<subseteq> set (columns csv)"
    by auto
  note k = getColumnIndex_known [OF c]
  show ?case
    using k Cons.prems(2) by (simp add: vec_at_def Cons.IH [OF cs Cons.prems(2)])
qed

lemma rowMatches_known:
  "whereColIdx = - 1 \<or> (0 \<le> whereColIdx \<and> whereColIdx < int (length row)) \<Longrightarrow>
   rowMatches M whereColIdx cond val row = Inr (isMatched M whereColIdx cond val row)"
  by (auto simp: rowMatches_def isMatched_def vec_at_def)

lemma selectRows_known:
  assumes "set colNames \<subseteq> set (columns csv)"
      and "whereColIdx = - 1 \<or> (0 \<le> whereColIdx \<and> whereColIdx < int (length (columns csv)))"
  shows "\<forall>row \<in> set rs. length row = length (columns csv) \<Longrightarrow>
         count + int (length rs) \<le> INT_MAX \<Longrightarrow>
         selectRows M csv colNames whereColIdx cond val rs toPrint count =
           Inr (toPrint @ concat (map (selectedLine csv colNames) (matchedRows M whereColIdx cond val rs)),
                count + int (length (matchedRows M whereColIdx cond val rs)))"
proof (induction rs arbitrary: toPrint count)
  case Nil
  show ?case by (simp add: matchedRows_def)
next
  case (Cons row rest)
  have len: "length row = length (columns csv)" using Cons.prems(1) by simp
  have rest: "\<forall>row \<in> set rest. length row = length (columns csv)" using Cons.prems(1) by simp
  have rm: "rowMatches M whereColIdx cond val row = Inr (isMatched M whereColIdx cond val row)"
    using assms(2) len by (intro rowMatches_known) simp
  show ?case
  proof (cases "isMatched M whereColIdx cond val row")
    case False
    have b: "count + int (length rest) \<le> INT_MAX" using Cons.prems(2) by simp
    show ?thesis
      using False rm Cons.IH [OF rest b] by (simp add: matchedRows_def)
  next
    case True
    have b: "(count + 1) + int (length rest) \<le> INT_MAX" using Cons.prems(2) by simp
    have ne: "count \<noteq> INT_MAX" using Cons.prems(2) by simp
    show ?thesis
      using True rm ne Cons.IH [OF rest b] printCols_known [OF assms(1) len]
      by (simp add: matchedRows_def selectedLine_def)
  qed
qed

lemma writeCols_known:
  "set colNames \<subseteq> set (columns csv) \<Longrightarrow> length row = length (columns csv) \<Longrightarrow>
   length colNames \<le> length vals \<Longrightarrow>
   writeCols csv colNames vals row = (assignCols csv colNames vals row, None)"
proof (induction csv colNames vals row rule: writeCols.induct)
  case (1 csv vals row)
  show ?case by simp
next
  case (2 csv colName colNames row)
  then show ?case by simp
next
  case (3 csv colName colNames v vals row)
  from "3.prems" have c: "colName \<in> set (columns csv)" by simp
  note k = getColumnIndex_known [OF c]
  have "writeCols csv colNames vals (row[nat (int (columnPos csv colName)) := v]) =
        (assignCols csv colNames vals (row[nat (int (columnPos csv colName)) := v]), None)"
    using k "3.prems" by (intro "3.IH") auto
  then show ?case using k "3.prems"(2) by simp
qed

lemma updateRows_known:
  assumes "set colNames \<subseteq> set (columns csv)"
      and "whereColIdx = - 1 \<or> (0 \<le> whereColIdx \<and> whereColIdx < int (length (columns csv)))"
      and "length colNames \<le> length vals"
  shows "\<forall>row \<in> set rs. length row = length (columns csv) \<Longrightarrow>
         count + int (length rs) \<le> INT_MAX \<Longrightarrow>
         updateRows M csv whereColIdx colNames cond val vals rs count =
           (map (\<lambda>row. if isMatched M whereColIdx cond val row
                        then assignCols csv colNames vals row else row) rs,
            Inr (count + int (length (matchedRows M whereColIdx cond val rs))))"
proof (induction rs arbitrary: count)
  case Nil
  show ?case by (simp add: matchedRows_def)
next
  case (Cons row rest)
  have len: "length row = length (columns csv)" using Cons.prems(1) by simp
  have rest: "\<forall>row \<in> set rest. length row = length (columns csv)" using Cons.prems(1) by simp
  have rm: "rowMatches M whereColIdx cond val row = Inr (isMatched M whereColIdx cond val row)"
    using assms(2) len by (intro rowMatches_known) simp
  show ?case
  proof (cases "isMatched M whereColIdx cond val row")
    case False
    have b: "count + int (length rest) \<le> INT_MAX" using Cons.prems(2) by simp
    show ?thesis
      using False rm Cons.IH [OF rest b] by (simp add: matchedRows_def)
  next
    case True
    have b: "(count + 1) + int (length rest) \<le> INT_MAX" using Cons.prems(2) by simp
    have ne: "count \<noteq> INT_MAX" using Cons.prems(2) by simp
    show ?thesis
      using True rm ne Cons.IH [OF rest b] writeCols_known [OF assms(1) len assms(3)]
      by (simp add: matchedRows_def)
  qed
qed

lemma processSelectRow_known:
  assumes "wellFormed csv"
      and "set colNames \<subseteq> set (columns csv)"
      and "whereColIdx = - 1 \<or> (0 \<le> whereColIdx \<and> whereColIdx < int (length (columns csv)))"
      and "int (length (rows csv)) \<le> INT_MAX"
  shows "processSelectRow M colNames toPrint csv whereColIdx cond val =
           Inr (toPrint @ concat (map (selectedLine csv colNames)
                                    (matchedRows M whereColIdx cond val (rows csv))),
                int (length (matchedRows M whereColIdx cond val (rows csv))))"
  using selectRows_known [OF assms(2,3), of "rows csv" 0 M cond val toPrint] assms(1,4)
  by (simp add: processSelectRow_def wellFormed_def)

lemma processUpdateRow_known:
  assumes "wellFormed csv"
      and "set colNames \<subseteq> set (columns csv)"
      and "whereColIdx = - 1 \<or> (0 \<le> whereColIdx \<and> whereColIdx < int (length (columns csv)))"
      and "length colNames \<le> length vals"
      and "int (length (rows csv)) \<le> INT_MAX"
  shows "processUpdateRow M csv whereColIdx colNames cond val vals =
           (csv\<lparr>rows := map (\<lambda>row. if isMatched M whereColIdx cond val row
                                     then assignCols csv colNames vals row else row) (rows csv)\<rparr>,
            Inr (int (length (matchedRows M whereColIdx cond val (rows csv)))))"
  using updateRows_known [OF assms(2,3,4), of "rows csv" 0 M cond val] assms(1,5)
  by (simp add: processUpdateRow_def wellFormed_def)

lemma matchedRows_member:
  "row \<in> set rs \<Longrightarrow>
   (row \<in> set (matchedRows M whereColIdx cond val rs)) = isMatched M whereColIdx cond val row"
  by (simp add: matchedRows_def)

text \<open>
  C4. On a table whose rows all have one field per column, with known column names,
  a where-column that is \<open>-1\<close> or the index of a column, a value for every named
  column and a row count that fits an \<open>int\<close>: select prints the line of every matched
  row, in order, and update assigns the values in every matched row and leaves the
  other rows as they are; both return the number of matched rows. The matched rows
  are all the rows when the where-column is \<open>-1\<close>, and otherwise exactly the rows whose
  field in the where-column satisfies the predicate.
\<close>

theorem process_rows_match_exactly:
  assumes "wellFormed csv"
      and "set colNames \<subseteq> set (columns csv)"
      and "whereColIdx = - 1 \<or> (0 \<le> whereColIdx \<and> whereColIdx < int (length (columns csv)))"
      and "length colNames \<le> length vals"
      and "int (length (rows csv)) \<le> INT_MAX"
  shows "processSelectRow M colNames toPrint csv whereColIdx cond val =
           Inr (toPrint @ concat (map (selectedLine csv colNames)
                                    (matchedRows M whereColIdx cond val (rows csv))),
                int (length (matchedRows M whereColIdx cond val (rows csv))))
       \<and> processUpdateRow M csv whereColIdx colNames cond val vals =
           (csv\<lparr>rows := map (\<lambda>row. if row \<in> set (matchedRows M whereColIdx cond val (rows csv))
                                     then assignCols csv colNames vals row else row) (rows csv)\<rparr>,
            Inr (int (length (matchedRows M whereColIdx cond val (rows csv)))))
       \<and> matchedRows M whereColIdx cond val (rows csv) =
           (if whereColIdx = - 1 then rows csv
            else filter (\<lambda>row. M (row ! nat whereColIdx) cond val) (rows csv))"
proof -
  have sel: "processSelectRow M colNames toPrint csv whereColIdx cond val =
           Inr (toPrint @ concat (map (selectedLine csv colNames)
                                    (matchedRows M whereColIdx cond val (rows csv))),
                int (length (matchedRows M whereColIdx cond val (rows csv))))"
    by (rule processSelectRow_known [OF assms(1,2,3,5)])
  have upd: "processUpdateRow M csv whereColIdx colNames cond val vals =
           (csv\<lparr>rows := map (\<lambda>row. if row \<in> set (matchedRows M whereColIdx cond val (rows csv))
                                     then assignCols csv colNames vals row else row) (rows csv)\<rparr>,
            Inr (int (length (matchedRows M whereColIdx cond val (rows csv)))))"
    unfolding processUpdateRow_known [OF assms]
    by (simp add: matchedRows_member cong: map_cong)
  have spec: "matchedRows M whereColIdx cond val (rows csv) =
           (if whereColIdx = - 1 then rows csv
            else filter (\<lambda>row. M (row ! nat whereColIdx) cond val) (rows csv))"
    by (simp add: matchedRows_def isMatched_def [abs_def])
  show ?thesis using sel upd spec by blast
qed

theorem process_rows_match_exactly_witness:
  "processSelectRow fieldEquals [''age''] [] people 0 ''='' ''Ann'' = Inr (''30'' @ NL, 1)
   \<and> processUpdateRow fieldEquals people 0 [''age''] ''='' ''Ann'' [''31''] =
       (\<lparr>columns = [''name'', ''age''], rows = [[''Ann'', ''31''], [''Bob'', ''25'']]\<rparr>, Inr 1)"
  using process_rows_match_exactly
    [of people "[''age'']" 0 "[''31'']" fieldEquals "[]" "''=''" "''Ann''"]
  by (simp add: people_def fieldEquals_def wellFormed_def INT_MAX_def selectedLine_def columnPos_def)

section \<open>Update: arity, notification, the column list\<close>

lemma writeCols_take:
  "length colNames \<le> length vals \<Longrightarrow>
   writeCols csv colNames (take (length colNames) vals) row = writeCols csv colNames vals row"
proof (induction csv colNames vals row rule: writeCols.induct)
  case (3 csv colName colNames v vals row)
  then show ?case by (simp split: sum.splits)
qed simp_all

lemma writeCols_take_le:
  assumes "length colNames \<le> n"
  shows "writeCols csv colNames (take n vals) row = writeCols csv colNames vals row"
proof (cases "length colNames \<le> length vals")
  case True
  have "writeCols csv colNames (take (length colNames) (take n vals)) row =
        writeCols csv colNames (take n vals) row"
    using True assms by (intro writeCols_take) simp
  moreover have "take (length colNames) (take n vals) = take (length colNames) vals"
    using assms by (simp add: min_def)
  ultimately show ?thesis using writeCols_take [OF True, of csv row] by simp
next
  case False
  then have "take n vals = vals" using assms by simp
  then show ?thesis by simp
qed

lemma updateRows_take:
  assumes "length colNames \<le> n"
  shows "updateRows M csv whereColIdx colNames cond val (take n vals) rs count =
         updateRows M csv whereColIdx colNames cond val vals rs count"
  by (induction rs arbitrary: count)
     (simp_all add: writeCols_take_le [OF assms] split: sum.split bool.split prod.split option.split)

lemma processUpdateRow_take:
  assumes "length colNames \<le> n"
  shows "processUpdateRow M csv whereColIdx colNames cond val (take n vals) =
         processUpdateRow M csv whereColIdx colNames cond val vals"
  by (simp add: processUpdateRow_def updateRows_take [OF assms])

lemma updateWait_take:
  assumes "length colNames \<le> n"
  shows "updateWait M csv whereColIdx colNames cond val (take n vals) wakes =
         updateWait M csv whereColIdx colNames cond val vals wakes"
  by (induction wakes arbitrary: csv)
     (simp_all add: processUpdateRow_take [OF assms] split: sum.split prod.split)

lemma updateResolved_take:
  assumes "length colNames \<le> n"
  shows "updateResolved M csv wakes mustWait colNames (take n vals) whereColIdx cond val =
         updateResolved M csv wakes mustWait colNames vals whereColIdx cond val"
  by (simp add: updateResolved_def processUpdateRow_take [OF assms] updateWait_take [OF assms]
      split: sum.split prod.split)



text \<open>
  C1, as the code has it. \<open>updateQuery\<close> never compares the two lengths. When the
  values list is longer than the resolved column list, the values beyond the column
  list are never read: the call does what it does on the values list cut to the
  length of the column list. On a well-formed table and request without waiting it
  therefore returns normally, with the values assigned in every matched row and the
  rows counted.
\<close>

theorem updateQuery_surplus_values_ignored:
  assumes "vec_at colNames 0 = Inr first"
      and "resolved = (if first = ''*'' then getColumnNames csv else colNames)"
      and "length resolved < length vals"
  shows "updateQuery M csv wakes mustWait colNames vals whereColIdx cond val =
           updateQuery M csv wakes mustWait colNames (take (length resolved) vals) whereColIdx cond val
       \<and> (wellFormed csv \<and> set resolved \<subseteq> set (columns csv)
            \<and> (whereColIdx = - 1 \<or> (0 \<le> whereColIdx \<and> whereColIdx < int (length (columns csv))))
            \<and> int (length (rows csv)) \<le> INT_MAX \<and> \<not> mustWait \<longrightarrow>
          updateQuery M csv wakes mustWait colNames vals whereColIdx cond val =
            Some \<lparr>table = csv\<lparr>rows :=
                      map (\<lambda>row. if row \<in> set (matchedRows M whereColIdx cond val (rows csv))
                                 then assignCols csv resolved vals row else row) (rows csv)\<rparr>,
                  notified = (0 < int (length (matchedRows M whereColIdx cond val (rows csv)))),
                  outcome = Inr [OInt (int (length (matchedRows M whereColIdx cond val (rows csv)))),
                                 OStr '' row(s) updated.'', OEndl]\<rparr>)"
proof -
  have eq: "updateQuery M csv wakes mustWait colNames vals whereColIdx cond val =
           updateQuery M csv wakes mustWait colNames (take (length resolved) vals) whereColIdx cond val"
    using assms(1,2) by (simp add: updateQuery_def updateResolved_take)
  have ok: "updateQuery M csv wakes mustWait colNames vals whereColIdx cond val =
            Some \<lparr>table = csv\<lparr>rows :=
                      map (\<lambda>row. if row \<in> set (matchedRows M whereColIdx cond val (rows csv))
                                 then assignCols csv resolved vals row else row) (rows csv)\<rparr>,
                  notified = (0 < int (length (matchedRows M whereColIdx cond val (rows csv)))),
                  outcome = Inr [OInt (int (length (matchedRows M whereColIdx cond val (rows csv)))),
                                 OStr '' row(s) updated.'', OEndl]\<rparr>"
    if wf: "wellFormed csv" and cols: "set resolved \<subseteq> set (columns csv)"
      and w: "whereColIdx = - 1 \<or> (0 \<le> whereColIdx \<and> whereColIdx < int (length (columns csv)))"
      and n: "int (length (rows csv)) \<le> INT_MAX" and nw: "\<not> mustWait"
  proof -
    have le: "length resolved \<le> length vals" using assms(3) by simp
    have "updateQuery M csv wakes mustWait colNames vals whereColIdx cond val =
          updateResolved M csv wakes mustWait resolved vals whereColIdx cond val"
      using assms(1,2) by (simp add: updateQuery_def)
    then show ?thesis
      using nw
      by (simp add: updateResolved_def processUpdateRow_known [OF wf cols w le n]
          matchedRows_member cong: map_cong)
  qed
  show ?thesis using eq ok by blast
qed

theorem updateQuery_surplus_values_ignored_witness:
  "updateQuery fieldEquals people [] False [''age''] [''31'', ''99''] 0 ''='' ''Bob'' =
   updateQuery fieldEquals people [] False [''age''] [''31''] 0 ''='' ''Bob''
   \<and> updateQuery fieldEquals people [] False [''age''] [''31'', ''99''] 0 ''='' ''Bob'' =
     Some \<lparr>table = \<lparr>columns = [''name'', ''age''],
                     rows = [[''Ann'', ''30''], [''Bob'', ''31'']]\<rparr>,
           notified = True,
           outcome = Inr [OInt 1, OStr '' row(s) updated.'', OEndl]\<rparr>"
  using updateQuery_surplus_values_ignored
    [of "[''age'']" "''age''" "[''age'']" people "[''31'', ''99'']" fieldEquals "[]" False 0
        "''=''" "''Bob''"]
  by (auto simp: people_def fieldEquals_def vec_at_def wellFormed_def INT_MAX_def matchedRows_def
      isMatched_def columnPos_def)

text \<open>
  C1, as the claim states it, fails: with one column named and two values given, and
  no where-clause, the call raises nothing, writes the first value into both rows and
  reports two rows updated.
\<close>

theorem updateQuery_arity_counterexample:
  "length [''31'', ''99''] \<noteq> length [''age'']
   \<and> updateQuery (\<lambda>field cond v. field = v)
       \<lparr>columns = [''name'', ''age''], rows = [[''Ann'', ''30''], [''Bob'', ''25'']]\<rparr>
       [] False [''age''] [''31'', ''99''] (- 1) [] [] =
     Some \<lparr>table = \<lparr>columns = [''name'', ''age''],
                     rows = [[''Ann'', ''31''], [''Bob'', ''31'']]\<rparr>,
           notified = True,
           outcome = Inr [OInt 2, OStr '' row(s) updated.'', OEndl]\<rparr>"
  by (simp add: updateQuery_def updateResolved_def processUpdateRow_def vec_at_def
      rowMatches_def getColumnIndex_def INT_MAX_def)



lemma selectedLine_rows [simp]:
  "selectedLine (csv\<lparr>rows := rs\<rparr>) colNames = selectedLine csv colNames"
  by (simp add: selectedLine_def columnPos_def fun_eq_iff)

lemma assignCols_rows [simp]:
  "assignCols (csv\<lparr>rows := rs\<rparr>) colNames vals row = assignCols csv colNames vals row"
  by (induction csv colNames vals row rule: assignCols.induct) (simp_all add: columnPos_def)






section \<open>The column list \<open>*\<close>\<close>

lemma index_of_nth:
  "distinct xs \<Longrightarrow> j < length xs \<Longrightarrow> index_of (xs ! j) xs = Some j"
proof (induction xs arbitrary: j)
  case Nil
  then show ?case by simp
next
  case (Cons x xs)
  show ?case
  proof (cases j)
    case 0
    then show ?thesis by simp
  next
    case (Suc k)
    with Cons.prems have k: "k < length xs" and d: "distinct xs" and x: "x \<notin> set xs" by simp_all
    from k x have "xs ! k \<noteq> x" by (metis nth_mem)
    with Cons.IH [OF d k] Suc show ?thesis by simp
  qed
qed

lemma columnPos_nth:
  "distinct (columns csv) \<Longrightarrow> j < length (columns csv) \<Longrightarrow> columnPos csv (columns csv ! j) = j"
  by (simp add: columnPos_def index_of_nth)

lemma all_fields_in_order:
  assumes "distinct (columns csv)" and "length row = length (columns csv)"
  shows "map (\<lambda>c. row ! columnPos csv c) (columns csv) = row"
proof (rule nth_equalityI)
  show "length (map (\<lambda>c. row ! columnPos csv c) (columns csv)) = length row"
    using assms(2) by simp
next
  fix j assume "j < length (map (\<lambda>c. row ! columnPos csv c) (columns csv))"
  then have j: "j < length (columns csv)" by simp
  then show "map (\<lambda>c. row ! columnPos csv c) (columns csv) ! j = row ! j"
    by (simp add: columnPos_nth [OF assms(1) j])
qed

lemma assignCols_from:
  assumes "distinct (columns csv)"
  shows "cs = drop k (columns csv) \<Longrightarrow> length row = length (columns csv) \<Longrightarrow>
         length cs \<le> length vs \<Longrightarrow>
         assignCols csv cs vs row = take k row @ take (length cs) vs"
proof (induction cs arbitrary: k vs row)
  case Nil
  then have "length (columns csv) \<le> k" by simp
  with Nil show ?case by simp
next
  case (Cons c cs)
  from Cons.prems(1) have k: "k < length (columns csv)"
    by (metis drop_all list.distinct(1) not_le)
  have "c # cs = columns csv ! k # drop (Suc k) (columns csv)"
    using Cons_nth_drop_Suc [OF k] Cons.prems(1) by simp
  then have c: "c = columns csv ! k" and cs: "cs = drop (Suc k) (columns csv)" by simp_all
  from Cons.prems(3) obtain v vs' where vs: "vs = v # vs'" by (cases vs) auto
  have pos: "columnPos csv c = k" unfolding c by (rule columnPos_nth [OF assms k])
  have len: "length (row[k := v]) = length (columns csv)" using Cons.prems(2) by simp
  have le: "length cs \<le> length vs'" using Cons.prems(3) vs by simp
  have "assignCols csv cs vs' (row[k := v]) = take (Suc k) (row[k := v]) @ take (length cs) vs'"
    by (rule Cons.IH [OF cs len le])
  moreover have "take (Suc k) (row[k := v]) = take k row @ [v]"
    using k Cons.prems(2) by (simp add: take_Suc_conv_app_nth)
  ultimately show ?case by (simp add: vs pos)
qed

lemma assign_all_columns:
  assumes "distinct (columns csv)" and "length row = length (columns csv)"
      and "length (columns csv) \<le> length vals"
  shows "assignCols csv (columns csv) vals row = take (length (columns csv)) vals"
  using assignCols_from [OF assms(1), of "columns csv" 0 row vals] assms(2,3) by simp

text \<open>
  C8. A column list that begins with \<open>*\<close> is replaced by the result of
  \<open>getColumnNames\<close> before the first scan of select and of update: the scans, the
  waiting and the report run on that list. On a well-formed table with distinct
  column names, a where-column that is \<open>-1\<close> or the index of a column, a row count
  that fits an \<open>int\<close> and, for update, a value for every column, that list is all the
  columns of the table in their order: select reports the column names of the table
  and prints, for every matched row, all its fields in their order, and update
  replaces every matched row by the values for the columns, in their order.
\<close>

theorem star_expands_to_all_columns:
  assumes "wellFormed csv" and "distinct (columns csv)"
      and "whereColIdx = - 1 \<or> (0 \<le> whereColIdx \<and> whereColIdx < int (length (columns csv)))"
      and "int (length (rows csv)) \<le> INT_MAX"
      and "length (columns csv) \<le> length vals"
  shows "selectQuery M csv wakes mustWait (''*'' # others) whereColIdx cond val =
           selectResolved M csv wakes mustWait (getColumnNames csv) whereColIdx cond val
       \<and> updateQuery M csv wakes mustWait (''*'' # others) vals whereColIdx cond val =
           updateResolved M csv wakes mustWait (getColumnNames csv) vals whereColIdx cond val
       \<and> selectQuery M csv wakes False (''*'' # others) whereColIdx cond val =
           Some (Inr ((if matchedRows M whereColIdx cond val (rows csv) = [] then []
                       else [OStrVec (columns csv), OStr NL,
                             OStr (concat (map (\<lambda>row. fieldsText [] row @ NL)
                                             (matchedRows M whereColIdx cond val (rows csv))))])
                      @ [OInt (int (length (matchedRows M whereColIdx cond val (rows csv)))),
                         OStr '' row(s) selected.'', OEndl]))
       \<and> updateQuery M csv wakes False (''*'' # others) vals whereColIdx cond val =
           Some \<lparr>table = csv\<lparr>rows :=
                     map (\<lambda>row. if row \<in> set (matchedRows M whereColIdx cond val (rows csv))
                                then take (length (columns csv)) vals else row) (rows csv)\<rparr>,
                 notified = (matchedRows M whereColIdx cond val (rows csv) \<noteq> []),
                 outcome = Inr [OInt (int (length (matchedRows M whereColIdx cond val (rows csv)))),
                                OStr '' row(s) updated.'', OEndl]\<rparr>"
proof -
  have anys: "selectQuery M csv wakes mustWait (''*'' # others) whereColIdx cond val =
           selectResolved M csv wakes mustWait (getColumnNames csv) whereColIdx cond val"
    by (simp add: selectQuery_def vec_at_def)
  have anyu: "updateQuery M csv wakes mustWait (''*'' # others) vals whereColIdx cond val =
           updateResolved M csv wakes mustWait (getColumnNames csv) vals whereColIdx cond val"
    by (simp add: updateQuery_def vec_at_def)
  have line: "selectedLine csv (columns csv) row = fieldsText [] row @ NL"
    if "row \<in> set (matchedRows M whereColIdx cond val (rows csv))" for row
  proof -
    from that have "row \<in> set (rows csv)" by (simp add: matchedRows_def)
    with assms(1) have "length row = length (columns csv)" by (simp add: wellFormed_def)
    from all_fields_in_order [OF assms(2) this] show ?thesis by (simp add: selectedLine_def)
  qed
  have lines: "map (selectedLine csv (columns csv)) (matchedRows M whereColIdx cond val (rows csv)) =
               map (\<lambda>row. fieldsText [] row @ NL) (matchedRows M whereColIdx cond val (rows csv))"
    using line by (simp cong: map_cong)
  have sel: "selectQuery M csv wakes False (''*'' # others) whereColIdx cond val =
             selectResolved M csv wakes False (columns csv) whereColIdx cond val"
    by (simp add: selectQuery_def vec_at_def getColumnNames_def)
  have s: "selectResolved M csv wakes False (columns csv) whereColIdx cond val =
           Some (Inr ((if matchedRows M whereColIdx cond val (rows csv) = [] then []
                       else [OStrVec (columns csv), OStr NL,
                             OStr (concat (map (\<lambda>row. fieldsText [] row @ NL)
                                             (matchedRows M whereColIdx cond val (rows csv))))])
                      @ [OInt (int (length (matchedRows M whereColIdx cond val (rows csv)))),
                         OStr '' row(s) selected.'', OEndl]))"
    using processSelectRow_known [OF assms(1) subset_refl assms(3,4), of M "[]" cond val]
    by (simp add: selectResolved_def lines)
  have assign: "(if row \<in> set (matchedRows M whereColIdx cond val (rows csv))
                 then assignCols csv (columns csv) vals row else row) =
                (if row \<in> set (matchedRows M whereColIdx cond val (rows csv))
                 then take (length (columns csv)) vals else row)"
    if "row \<in> set (rows csv)" for row
  proof -
    from that assms(1) have "length row = length (columns csv)" by (simp add: wellFormed_def)
    from assign_all_columns [OF assms(2) this assms(5)] show ?thesis by simp
  qed
  have upd: "updateQuery M csv wakes False (''*'' # others) vals whereColIdx cond val =
             updateResolved M csv wakes False (columns csv) vals whereColIdx cond val"
    by (simp add: updateQuery_def vec_at_def getColumnNames_def)
  have u: "updateResolved M csv wakes False (columns csv) vals whereColIdx cond val =
           Some \<lparr>table = csv\<lparr>rows :=
                     map (\<lambda>row. if row \<in> set (matchedRows M whereColIdx cond val (rows csv))
                                then take (length (columns csv)) vals else row) (rows csv)\<rparr>,
                 notified = (matchedRows M whereColIdx cond val (rows csv) \<noteq> []),
                 outcome = Inr [OInt (int (length (matchedRows M whereColIdx cond val (rows csv)))),
                                OStr '' row(s) updated.'', OEndl]\<rparr>"
    using processUpdateRow_known [OF assms(1) subset_refl assms(3,5,4), of M cond val] assign
    by (simp add: updateResolved_def matchedRows_member cong: map_cong)
  show ?thesis using anys anyu sel s upd u by simp
qed

theorem star_expands_to_all_columns_witness:
  "selectQuery fieldEquals
     \<lparr>columns = [''name'', ''age'', ''city''],
        rows = [[''Ann'', ''30'', ''Oslo''], [''Bob'', ''25'', ''Rome'']]\<rparr>
     [] False [''*''] 1 ''='' ''30'' =
     Some (Inr [OStrVec [''name'', ''age'', ''city''], OStr NL,
                OStr (''Ann'' @ TAB @ ''30'' @ TAB @ ''Oslo'' @ NL),
                OInt 1, OStr '' row(s) selected.'', OEndl])
   \<and> updateQuery fieldEquals
     \<lparr>columns = [''name'', ''age'', ''city''],
        rows = [[''Ann'', ''30'', ''Oslo''], [''Bob'', ''25'', ''Rome'']]\<rparr>
     [] False [''*''] [''Zed'', ''40'', ''Bern''] 0 ''='' ''Ann'' =
     Some \<lparr>table = \<lparr>columns = [''name'', ''age'', ''city''],
                     rows = [[''Zed'', ''40'', ''Bern''], [''Bob'', ''25'', ''Rome'']]\<rparr>,
           notified = True,
           outcome = Inr [OInt 1, OStr '' row(s) updated.'', OEndl]\<rparr>"
proof -
  let ?t = "\<lparr>columns = [''name'', ''age'', ''city''],
             rows = [[''Ann'', ''30'', ''Oslo''], [''Bob'', ''25'', ''Rome'']]\<rparr>"
  have wf: "wellFormed ?t" by (simp add: wellFormed_def)
  have dist: "distinct (columns ?t)" by simp
  have age: "(1::int) = - 1 \<or> (0 \<le> (1::int) \<and> 1 < int (length (columns ?t)))"
    by simp
  have name: "(0::int) = - 1 \<or> (0 \<le> (0::int) \<and> 0 < int (length (columns ?t)))"
    by simp
  have few: "int (length (rows ?t)) \<le> INT_MAX" by (simp add: INT_MAX_def)
  have enough: "length (columns ?t) \<le> length [''Zed'', ''40'', ''Bern'']" by simp
  note sel = star_expands_to_all_columns [OF wf dist age few enough,
      of fieldEquals "[]" False "[]" "''=''" "''30''", THEN conjunct2, THEN conjunct2, THEN conjunct1]
  note upd = star_expands_to_all_columns [OF wf dist name few enough,
      of fieldEquals "[]" False "[]" "''=''" "''Ann''", THEN conjunct2, THEN conjunct2, THEN conjunct2]
  have s: "selectQuery fieldEquals ?t [] False [''*''] 1 ''='' ''30'' =
     Some (Inr [OStrVec [''name'', ''age'', ''city''], OStr NL,
                OStr (''Ann'' @ TAB @ ''30'' @ TAB @ ''Oslo'' @ NL),
                OInt 1, OStr '' row(s) selected.'', OEndl])"
    using sel by (simp add: fieldEquals_def matchedRows_def isMatched_def)
  have u: "updateQuery fieldEquals ?t [] False [''*''] [''Zed'', ''40'', ''Bern''] 0 ''='' ''Ann'' =
     Some \<lparr>table = \<lparr>columns = [''name'', ''age'', ''city''],
                     rows = [[''Zed'', ''40'', ''Bern''], [''Bob'', ''25'', ''Rome'']]\<rparr>,
           notified = True,
           outcome = Inr [OInt 1, OStr '' row(s) updated.'', OEndl]\<rparr>"
    using upd by (simp add: fieldEquals_def matchedRows_def isMatched_def)
  show ?thesis using s u by simp
qed

section \<open>Waiting for a match\<close>





section \<open>Resolving and saving tables\<close>

lemma loadAndGet_resident:
  assumes "key = (if fileOrURL = [] then recentCSV reg else fileOrURL)"
      and "inMemoryCSV reg key = Some resident"
  shows "loadAndGet w d fileOrURL reg = (reg\<lparr>recentCSV := key\<rparr>, Inr key)"
  using assms by (cases "fileOrURL = []") (simp_all add: loadAndGet_def Let_def)

lemma loadAndGet_absent:
  assumes "key = (if fileOrURL = [] then recentCSV reg else fileOrURL)"
      and "inMemoryCSV reg key = None"
  shows "loadAndGet w d fileOrURL reg =
           (case loadSource w d key of
              Inl e \<Rightarrow> (reg\<lparr>recentCSV := key\<rparr>, Inl e)
            | Inr csv \<Rightarrow>
                (reg\<lparr>recentCSV := key, inMemoryCSV := (inMemoryCSV reg)(key \<mapsto> csv)\<rparr>, Inr key))"
proof (cases "fileOrURL = []")
  case True
  with assms show ?thesis
    by (cases "loadSource w d key") (simp_all add: loadAndGet_def Let_def)
next
  case False
  with assms show ?thesis
    by (cases "loadSource w d key") (simp_all add: loadAndGet_def Let_def)
qed

lemma loadAndGet_success:
  assumes "loadAndGet w d fileOrURL reg = (reg', Inr ref)"
  shows "ref = (if fileOrURL = [] then recentCSV reg else fileOrURL)
       \<and> recentCSV reg' = ref \<and> inMemoryCSV reg' ref \<noteq> None"
proof -
  define key where "key = (if fileOrURL = [] then recentCSV reg else fileOrURL)"
  show ?thesis
  proof (cases "inMemoryCSV reg key")
    case (Some resident)
    from loadAndGet_resident [OF key_def Some, of w d] assms Some show ?thesis
      by (auto simp: key_def)
  next
    case None
    from loadAndGet_absent [OF key_def None, of w d] assms show ?thesis
      by (cases "loadSource w d key") (auto simp: key_def)
  qed
qed

lemma loadAndGet_again:
  assumes "recentCSV reg' = ref" and "inMemoryCSV reg' ref \<noteq> None"
      and "fileOrURL = [] \<or> fileOrURL = ref"
  shows "loadAndGet w' d' fileOrURL reg' = (reg', Inr ref)"
proof -
  from assms(2) obtain resident where r: "inMemoryCSV reg' ref = Some resident" by auto
  have k: "ref = (if fileOrURL = [] then recentCSV reg' else fileOrURL)"
    using assms(1,3) by auto
  show ?thesis
    using loadAndGet_resident [OF k r, of w' d'] assms(1) by simp
qed

lemma loadAndGet_keeps:
  "inMemoryCSV reg k = Some c \<Longrightarrow> inMemoryCSV (fst (loadAndGet w d fileOrURL reg)) k = Some c"
  by (auto simp: loadAndGet_def Let_def split: option.splits sum.splits)

lemma resolveAll_keeps:
  "inMemoryCSV reg k = Some c \<Longrightarrow> inMemoryCSV (resolveAll calls reg) k = Some c"
proof (induction calls arbitrary: reg)
  case Nil
  then show ?case by simp
next
  case (Cons call calls)
  obtain w d f where call: "call = (w, d, f)" by (cases call) auto
  from Cons.prems have "inMemoryCSV (fst (loadAndGet w d f reg)) k = Some c"
    by (rule loadAndGet_keeps)
  from Cons.IH [OF this] show ?case by (simp add: call)
qed

text \<open>
  C5. An empty identifier resolves as the most recent identifier does; every call
  records the identifier it resolved as the most recent one. After a call that
  returned a table, resolving the same identifier, the returned key or the empty
  identifier again, whatever the files and the network are by then, returns the same
  key and leaves the registry, and so the table under that key, as it is. After any
  further calls of \<open>loadAndGet\<close>, for this or for other identifiers, the table under
  the key is still the one that was loaded, and resolving the key returns it without
  a load and without a change to the map. No call removes or replaces a table that
  is resident.
\<close>

theorem loadAndGet_resolves_recent_and_resident:
  "loadAndGet w d [] reg = loadAndGet w d (recentCSV reg) reg
   \<and> recentCSV (fst (loadAndGet w d fileOrURL reg)) =
       (if fileOrURL = [] then recentCSV reg else fileOrURL)
   \<and> (loadAndGet w d fileOrURL reg = (reg', Inr ref) \<longrightarrow>
        ref = (if fileOrURL = [] then recentCSV reg else fileOrURL)
        \<and> inMemoryCSV reg' ref \<noteq> None
        \<and> loadAndGet w' d' fileOrURL reg' = (reg', Inr ref)
        \<and> loadAndGet w' d' ref reg' = (reg', Inr ref)
        \<and> loadAndGet w' d' [] reg' = (reg', Inr ref)
        \<and> inMemoryCSV (resolveAll calls reg') ref = inMemoryCSV reg' ref
        \<and> (ref \<noteq> [] \<longrightarrow>
             loadAndGet w' d' ref (resolveAll calls reg') =
               ((resolveAll calls reg')\<lparr>recentCSV := ref\<rparr>, Inr ref)))
   \<and> (inMemoryCSV reg k = Some c \<longrightarrow>
        inMemoryCSV (fst (loadAndGet w d fileOrURL reg)) k = Some c
        \<and> inMemoryCSV (resolveAll calls reg) k = Some c)"
proof -
  have a: "loadAndGet w d [] reg = loadAndGet w d (recentCSV reg) reg"
    by (simp add: loadAndGet_def)
  have b: "recentCSV (fst (loadAndGet w d fileOrURL reg)) =
       (if fileOrURL = [] then recentCSV reg else fileOrURL)"
    by (simp add: loadAndGet_def Let_def split: option.split sum.split)
  have c: "ref = (if fileOrURL = [] then recentCSV reg else fileOrURL)
        \<and> inMemoryCSV reg' ref \<noteq> None
        \<and> loadAndGet w' d' fileOrURL reg' = (reg', Inr ref)
        \<and> loadAndGet w' d' ref reg' = (reg', Inr ref)
        \<and> loadAndGet w' d' [] reg' = (reg', Inr ref)
        \<and> inMemoryCSV (resolveAll calls reg') ref = inMemoryCSV reg' ref
        \<and> (ref \<noteq> [] \<longrightarrow>
             loadAndGet w' d' ref (resolveAll calls reg') =
               ((resolveAll calls reg')\<lparr>recentCSV := ref\<rparr>, Inr ref))"
    if ok: "loadAndGet w d fileOrURL reg = (reg', Inr ref)"
  proof -
    note s = loadAndGet_success [OF ok]
    from s have r: "recentCSV reg' = ref" and m: "inMemoryCSV reg' ref \<noteq> None" by blast+
    have same: "fileOrURL = [] \<or> fileOrURL = ref" using s by (cases "fileOrURL = []") simp_all
    from s have k: "ref = (if fileOrURL = [] then recentCSV reg else fileOrURL)" by blast
    have g1: "loadAndGet w' d' fileOrURL reg' = (reg', Inr ref)"
      by (rule loadAndGet_again [OF r m same])
    have g2: "loadAndGet w' d' ref reg' = (reg', Inr ref)"
      by (rule loadAndGet_again [OF r m]) simp
    have g3: "loadAndGet w' d' [] reg' = (reg', Inr ref)"
      by (rule loadAndGet_again [OF r m]) simp
    from m obtain resident where res: "inMemoryCSV reg' ref = Some resident" by auto
    have later: "inMemoryCSV (resolveAll calls reg') ref = Some resident"
      by (rule resolveAll_keeps [OF res])
    have g4: "inMemoryCSV (resolveAll calls reg') ref = inMemoryCSV reg' ref"
      using later res by simp
    have g5: "loadAndGet w' d' ref (resolveAll calls reg') =
            ((resolveAll calls reg')\<lparr>recentCSV := ref\<rparr>, Inr ref)" if "ref \<noteq> []"
    proof -
      have kk: "ref = (if ref = [] then recentCSV (resolveAll calls reg') else ref)"
        using that by simp
      show ?thesis by (rule loadAndGet_resident [OF kk later])
    qed
    show ?thesis using k m g1 g2 g3 g4 g5 by blast
  qed
  have p: "inMemoryCSV (fst (loadAndGet w d fileOrURL reg)) k = Some c
        \<and> inMemoryCSV (resolveAll calls reg) k = Some c"
    if "inMemoryCSV reg k = Some c"
    using that by (simp add: loadAndGet_keeps resolveAll_keeps)
  show ?thesis using a b c p by blast
qed

theorem loadAndGet_resolves_recent_and_resident_witness:
  "loadAndGet offline [''people.csv'' \<mapsto> []] ''people.csv'' emptyRegistry =
     (\<lparr>recentCSV = ''people.csv'', inMemoryCSV = [''people.csv'' \<mapsto> people]\<rparr>, Inr ''people.csv'')
   \<and> loadAndGet offline Map.empty []
        \<lparr>recentCSV = ''people.csv'', inMemoryCSV = [''people.csv'' \<mapsto> people]\<rparr> =
     (\<lparr>recentCSV = ''people.csv'', inMemoryCSV = [''people.csv'' \<mapsto> people]\<rparr>, Inr ''people.csv'')
   \<and> resolveAll [(offline, [''other.csv'' \<mapsto> []], ''other.csv'')]
        \<lparr>recentCSV = ''people.csv'', inMemoryCSV = [''people.csv'' \<mapsto> people]\<rparr> =
     \<lparr>recentCSV = ''other.csv'',
        inMemoryCSV = [''people.csv'' \<mapsto> people, ''other.csv'' \<mapsto> people]\<rparr>
   \<and> loadAndGet offline Map.empty ''people.csv''
        \<lparr>recentCSV = ''other.csv'',
           inMemoryCSV = [''people.csv'' \<mapsto> people, ''other.csv'' \<mapsto> people]\<rparr> =
     (\<lparr>recentCSV = ''people.csv'',
         inMemoryCSV = [''people.csv'' \<mapsto> people, ''other.csv'' \<mapsto> people]\<rparr>, Inr ''people.csv'')
   \<and> inMemoryCSV (resolveAll [(offline, [''other.csv'' \<mapsto> []], ''other.csv'')]
        \<lparr>recentCSV = ''people.csv'', inMemoryCSV = [''people.csv'' \<mapsto> people]\<rparr>) ''people.csv'' =
     Some people"
proof -
  let ?regA = "\<lparr>recentCSV = ''people.csv'', inMemoryCSV = [''people.csv'' \<mapsto> people]\<rparr>"
  let ?calls = "[(offline, [''other.csv'' \<mapsto> []], ''other.csv'')]"
  have first: "loadAndGet offline [''people.csv'' \<mapsto> []] ''people.csv'' emptyRegistry =
     (?regA, Inr ''people.csv'')"
    by (simp add: loadAndGet_def Let_def loadSource_def startsWith_def offline_def emptyRegistry_def)
  have other: "resolveAll ?calls ?regA =
     \<lparr>recentCSV = ''other.csv'',
        inMemoryCSV = [''people.csv'' \<mapsto> people, ''other.csv'' \<mapsto> people]\<rparr>"
    by (simp add: loadAndGet_def Let_def loadSource_def startsWith_def offline_def)
  have resident: "inMemoryCSV ?regA ''people.csv'' = Some people" by simp
  note t = loadAndGet_resolves_recent_and_resident
         [of offline "[''people.csv'' \<mapsto> []]" emptyRegistry "''people.csv''" ?regA
             "''people.csv''" offline Map.empty ?calls]
  from t first have again: "loadAndGet offline Map.empty [] ?regA = (?regA, Inr ''people.csv'')"
    by simp
  from t first have later: "loadAndGet offline Map.empty ''people.csv'' (resolveAll ?calls ?regA) =
      ((resolveAll ?calls ?regA)\<lparr>recentCSV := ''people.csv''\<rparr>, Inr ''people.csv'')"
    by simp
  note kept = loadAndGet_resolves_recent_and_resident
         [of _ _ ?regA _ _ _ _ _ ?calls "''people.csv''" people, THEN conjunct2, THEN conjunct2,
          THEN conjunct2, rule_format, OF resident]
  from kept have still: "inMemoryCSV (resolveAll ?calls ?regA) ''people.csv'' = Some people"
    by blast
  show ?thesis using first again other later [unfolded other] still by simp
qed

text \<open>
  C6. When the resolved identifier is not resident and its load throws, the call ends
  in that exception, records the identifier as most recent and inserts nothing; the
  next call for the identifier, not finding it, loads from the source again, and
  inserts the table if that load succeeds.
\<close>

theorem loadAndGet_failure_not_inserted:
  assumes "key = (if fileOrURL = [] then recentCSV reg else fileOrURL)"
      and "inMemoryCSV reg key = None"
      and "loadSource w d key = Inl e"
  shows "loadAndGet w d fileOrURL reg = (reg\<lparr>recentCSV := key\<rparr>, Inl e)
       \<and> inMemoryCSV (reg\<lparr>recentCSV := key\<rparr>) key = None
       \<and> loadAndGet w' d' fileOrURL (reg\<lparr>recentCSV := key\<rparr>) =
           (case loadSource w' d' key of
              Inl e' \<Rightarrow> (reg\<lparr>recentCSV := key\<rparr>, Inl e')
            | Inr csv \<Rightarrow>
                (reg\<lparr>recentCSV := key, inMemoryCSV := (inMemoryCSV reg)(key \<mapsto> csv)\<rparr>, Inr key))"
proof -
  have first: "loadAndGet w d fileOrURL reg = (reg\<lparr>recentCSV := key\<rparr>, Inl e)"
    using loadAndGet_absent [OF assms(1,2), of w d] assms(3) by simp
  have k: "key = (if fileOrURL = [] then recentCSV (reg\<lparr>recentCSV := key\<rparr>) else fileOrURL)"
    using assms(1) by simp
  have n: "inMemoryCSV (reg\<lparr>recentCSV := key\<rparr>) key = None"
    using assms(2) by simp
  have again: "loadAndGet w' d' fileOrURL (reg\<lparr>recentCSV := key\<rparr>) =
           (case loadSource w' d' key of
              Inl e' \<Rightarrow> (reg\<lparr>recentCSV := key\<rparr>, Inl e')
            | Inr csv \<Rightarrow>
                (reg\<lparr>recentCSV := key, inMemoryCSV := (inMemoryCSV reg)(key \<mapsto> csv)\<rparr>, Inr key))"
    using loadAndGet_absent [OF k n, of w' d'] by (simp split: sum.splits)
  show ?thesis using first n again by blast
qed

theorem loadAndGet_failure_not_inserted_witness:
  "loadAndGet offline Map.empty ''missing.csv'' emptyRegistry =
     (\<lparr>recentCSV = ''missing.csv'', inMemoryCSV = Map.empty\<rparr>, Inl (Exp ''no data''))
   \<and> loadAndGet offline [''missing.csv'' \<mapsto> []] ''missing.csv''
        \<lparr>recentCSV = ''missing.csv'', inMemoryCSV = Map.empty\<rparr> =
     (\<lparr>recentCSV = ''missing.csv'', inMemoryCSV = [''missing.csv'' \<mapsto> people]\<rparr>, Inr ''missing.csv'')"
proof -
  have k: "''missing.csv'' = (if ''missing.csv'' = [] then recentCSV emptyRegistry else ''missing.csv'')"
    by simp
  have n: "inMemoryCSV emptyRegistry ''missing.csv'' = None"
    by (simp add: emptyRegistry_def)
  have f: "loadSource offline Map.empty ''missing.csv'' = Inl (Exp ''no data'')"
    by (simp add: loadSource_def startsWith_def offline_def)
  have g: "loadSource offline [''missing.csv'' \<mapsto> []] ''missing.csv'' = Inr people"
    by (simp add: loadSource_def startsWith_def offline_def)
  note t = loadAndGet_failure_not_inserted [OF k n f, of offline "[''missing.csv'' \<mapsto> []]"]
  show ?thesis using t by (simp add: g emptyRegistry_def)
qed

text \<open>
  C9. The most recent identifier is set before the load: when a non-empty identifier
  is not resident and its load throws, it is the most recent identifier afterwards, and
  a following request with the empty identifier does what a request for the failed
  identifier does; if it returns a table, it is the one under the failed identifier.
\<close>

theorem failed_load_becomes_most_recent:
  assumes "fileOrURL \<noteq> []"
      and "inMemoryCSV reg fileOrURL = None"
      and "loadSource w d fileOrURL = Inl e"
  shows "loadAndGet w d fileOrURL reg = (reg\<lparr>recentCSV := fileOrURL\<rparr>, Inl e)
       \<and> loadAndGet w' d' [] (reg\<lparr>recentCSV := fileOrURL\<rparr>) =
           loadAndGet w' d' fileOrURL (reg\<lparr>recentCSV := fileOrURL\<rparr>)
       \<and> (\<forall>ref. snd (loadAndGet w' d' [] (reg\<lparr>recentCSV := fileOrURL\<rparr>)) = Inr ref
                \<longrightarrow> ref = fileOrURL)"
proof -
  let ?reg1 = "reg\<lparr>recentCSV := fileOrURL\<rparr>"
  have k: "fileOrURL = (if fileOrURL = [] then recentCSV reg else fileOrURL)"
    using assms(1) by simp
  have first: "loadAndGet w d fileOrURL reg = (?reg1, Inl e)"
    using loadAndGet_absent [OF k assms(2), of w d] assms(3) by simp
  have same: "loadAndGet w' d' [] ?reg1 = loadAndGet w' d' fileOrURL ?reg1"
    using assms(1) by (simp add: loadAndGet_def)
  have only: "ref = fileOrURL" if "snd (loadAndGet w' d' [] ?reg1) = Inr ref" for ref
  proof -
    have "loadAndGet w' d' [] ?reg1 = (fst (loadAndGet w' d' [] ?reg1), Inr ref)"
      using that by (cases "loadAndGet w' d' [] ?reg1") simp
    from loadAndGet_success [OF this] show ?thesis by simp
  qed
  show ?thesis using first same only by blast
qed

theorem failed_load_becomes_most_recent_witness:
  "loadAndGet offline Map.empty ''missing.csv''
          \<lparr>recentCSV = ''people.csv'', inMemoryCSV = [''people.csv'' \<mapsto> people]\<rparr> =
     (\<lparr>recentCSV = ''missing.csv'', inMemoryCSV = [''people.csv'' \<mapsto> people]\<rparr>,
      Inl (Exp ''no data''))
   \<and> loadAndGet offline [''missing.csv'' \<mapsto> []] []
        \<lparr>recentCSV = ''missing.csv'', inMemoryCSV = [''people.csv'' \<mapsto> people]\<rparr> =
      loadAndGet offline [''missing.csv'' \<mapsto> []] ''missing.csv''
        \<lparr>recentCSV = ''missing.csv'', inMemoryCSV = [''people.csv'' \<mapsto> people]\<rparr>
   \<and> snd (loadAndGet offline [''missing.csv'' \<mapsto> []] []
        \<lparr>recentCSV = ''missing.csv'', inMemoryCSV = [''people.csv'' \<mapsto> people]\<rparr>) =
      Inr ''missing.csv''"
proof -
  let ?reg = "\<lparr>recentCSV = ''people.csv'', inMemoryCSV = [''people.csv'' \<mapsto> people]\<rparr>"
  have a: "''missing.csv'' \<noteq> []" by simp
  have n: "inMemoryCSV ?reg ''missing.csv'' = None" by simp
  have f: "loadSource offline Map.empty ''missing.csv'' = Inl (Exp ''no data'')"
    by (simp add: loadSource_def startsWith_def offline_def)
  have g: "loadSource offline [''missing.csv'' \<mapsto> []] ''missing.csv'' = Inr people"
    by (simp add: loadSource_def startsWith_def offline_def)
  have after: "snd (loadAndGet offline [''missing.csv'' \<mapsto> []] []
        \<lparr>recentCSV = ''missing.csv'', inMemoryCSV = [''people.csv'' \<mapsto> people]\<rparr>) =
      Inr ''missing.csv''"
    by (simp add: loadAndGet_def Let_def g)
  note t = failed_load_becomes_most_recent [OF a n f, of offline "[''missing.csv'' \<mapsto> []]"]
  show ?thesis using t after by simp
qed

text \<open>
  C10. When the most recent identifier is a local path with no table resident under
  it and the file can be opened for writing, \<open>saveQuery\<close> ends in the exception of the
  lookup, and the file is left empty: it was created or truncated before the lookup.
\<close>

theorem saveQuery_truncates_before_lookup:
  assumes "recentCSV reg \<noteq> []"
      and "\<not> startsWith ''http://'' (recentCSV reg)"
      and "inMemoryCSV reg (recentCSV reg) = None"
      and "writable w (recentCSV reg)"
  shows "saveQuery w reg d = (d(recentCSV reg \<mapsto> []), Inl OutOfRange)"
  using assms by (simp add: saveQuery_def)

theorem saveQuery_truncates_before_lookup_witness:
  "saveQuery offline \<lparr>recentCSV = ''missing.csv'', inMemoryCSV = [''people.csv'' \<mapsto> people]\<rparr>
     [''missing.csv'' \<mapsto> [''name,age'', ''Ann,30'']] =
   ([''missing.csv'' \<mapsto> []], Inl OutOfRange)"
  using saveQuery_truncates_before_lookup
    [of "\<lparr>recentCSV = ''missing.csv'', inMemoryCSV = [''people.csv'' \<mapsto> people]\<rparr>" offline
        "[''missing.csv'' \<mapsto> [''name,age'', ''Ann,30'']]"]
  by (simp add: startsWith_def offline_def)

section \<open>The bound on the active workers\<close>

lemma counterInv_start: "0 \<le> maxThr \<Longrightarrow> counterInv maxThr serverStart"
  by (simp add: counterInv_def serverStart_def admitted_def)

lemma counterInv_scheduler:
  assumes "counterInv maxThr s" and "schedulerStep maxThr s = Some s'"
  shows "counterInv maxThr s'"
  using assms
  by (cases "scheduler s")
     (auto simp: schedulerStep_def counterInv_def admitted_def split: if_splits)

lemma counterInv_spurious:
  assumes "counterInv maxThr s" and "scheduler s = Blocked"
  shows "counterInv maxThr (s\<lparr>scheduler := Waiting\<rparr>)"
  using assms by (simp add: counterInv_def admitted_def)

lemma counterInv_notify_one:
  "counterInv maxThr s \<Longrightarrow> counterInv maxThr (notify_one s)"
  by (simp add: notify_one_def counterInv_def admitted_def)

lemma list_all_update:
  "list_all P xs \<Longrightarrow> P y \<Longrightarrow> list_all P (xs[i := y])"
  by (induction xs arbitrary: i) (auto split: nat.splits)

lemma counterInv_worker:
  assumes "counterInv maxThr s" and "workerStep i s = Some s'"
  shows "counterInv maxThr s'"
proof -
  from assms(2) have i: "i < length (workers s)"
    by (auto simp: workerStep_def split: if_splits)
  from assms(1) have all: "list_all (workerBelow maxThr) (workers s)"
    by (simp add: counterInv_def)
  show ?thesis
  proof (cases "workers s ! i")
    case Serving
    with assms i have s': "s' = s\<lparr>workers := (workers s)[i := Decrementing (numThreads s)]\<rparr>"
      by (simp add: workerStep_def)
    have "workerBelow maxThr (Decrementing (numThreads s))"
      using assms(1) by (simp add: counterInv_def)
    from list_all_update [OF all this] assms(1) show ?thesis
      unfolding s' counterInv_def admitted_def by simp
  next
    case (Decrementing n)
    with assms i have s': "s' = s\<lparr>numThreads := n - 1, workers := (workers s)[i := Notifying]\<rparr>"
      by (simp add: workerStep_def)
    have "workerBelow maxThr (workers s ! i)"
      using all i by (simp add: list_all_length)
    then have n: "n \<le> maxThr" using Decrementing by simp
    have "workerBelow maxThr Notifying" by simp
    from list_all_update [OF all this] assms(1) n show ?thesis
      unfolding s' counterInv_def admitted_def by simp
  next
    case Notifying
    with assms i have s': "s' = notify_one (s\<lparr>workers := (workers s)[i := Finished]\<rparr>)"
      by (simp add: workerStep_def)
    have "workerBelow maxThr Finished" by simp
    from list_all_update [OF all this] assms(1)
    have "counterInv maxThr (s\<lparr>workers := (workers s)[i := Finished]\<rparr>)"
      unfolding counterInv_def admitted_def by simp
    then show ?thesis unfolding s' by (rule counterInv_notify_one)
  next
    case Finished
    with assms i show ?thesis by (simp add: workerStep_def)
  qed
qed

lemma reachable_counterInv:
  "reachable maxThr s \<Longrightarrow> 0 \<le> maxThr \<Longrightarrow> counterInv maxThr s"
  by (induction rule: reachable.induct)
     (auto intro: counterInv_start counterInv_scheduler counterInv_worker counterInv_spurious)

lemma dispatch_increments:
  "scheduler s = Spawning \<Longrightarrow>
   dispatch maxThr s =
     Some (s\<lparr>numThreads := numThreads s + 1, scheduler := Accepting,
             workers := workers s @ [Serving]\<rparr>)"
  by (simp add: dispatch_def schedulerStep_def)

lemma complete_decrements:
  "i < length (workers s) \<Longrightarrow> workers s ! i = Serving \<Longrightarrow>
   complete i s =
     Some (notify_one (s\<lparr>numThreads := numThreads s - 1, workers := (workers s)[i := Finished]\<rparr>))"
  by (simp add: complete_def workerStep_def notify_one_def)

lemma full_blocks:
  "scheduler s = Waiting \<Longrightarrow> \<not> numThreads s < maxThr \<Longrightarrow>
   Option.bind (schedulerStep maxThr s) (schedulerStep maxThr) = Some (s\<lparr>scheduler := Blocked\<rparr>)
   \<and> schedulerStep maxThr (s\<lparr>scheduler := Blocked\<rparr>) = None"
  by (simp add: schedulerStep_def)

lemma reachable_at_capacity:
  "reachable 1 \<lparr>numThreads = 1, scheduler = Waiting, workers = [Serving]\<rparr>"
proof -
  have "reachable 1 \<lparr>numThreads = 0, scheduler = Waiting, workers = []\<rparr>"
    by (rule reachable.scheduler [OF reachable.start]) (simp add: schedulerStep_def serverStart_def)
  then have "reachable 1 \<lparr>numThreads = 0, scheduler = Spawning, workers = []\<rparr>"
    by (rule reachable.scheduler) (simp add: schedulerStep_def)
  then have "reachable 1 \<lparr>numThreads = 0, scheduler = Incrementing, workers = [Serving]\<rparr>"
    by (rule reachable.scheduler) (simp add: schedulerStep_def)
  then have "reachable 1 \<lparr>numThreads = 0, scheduler = Storing 0, workers = [Serving]\<rparr>"
    by (rule reachable.scheduler) (simp add: schedulerStep_def)
  then have "reachable 1 \<lparr>numThreads = 1, scheduler = Accepting, workers = [Serving]\<rparr>"
    by (rule reachable.scheduler) (simp add: schedulerStep_def)
  then show ?thesis
    by (rule reachable.scheduler) (simp add: schedulerStep_def)
qed

lemma reachable_blocked:
  "reachable 1 \<lparr>numThreads = 1, scheduler = Blocked, workers = [Serving]\<rparr>"
proof -
  have "reachable 1 \<lparr>numThreads = 1, scheduler = Suspending, workers = [Serving]\<rparr>"
    by (rule reachable.scheduler [OF reachable_at_capacity]) (simp add: schedulerStep_def)
  then show ?thesis
    by (rule reachable.scheduler) (simp add: schedulerStep_def)
qed

text \<open>
  C7. With a maximum that is not negative, in every state that the scheduler and its
  workers can reach: the counter is at most the maximum; it is strictly below the
  maximum whenever the scheduler has passed its wait and is about to create the
  worker thread or to increment the counter; a scheduler that evaluates its
  predicate with the counter not below the maximum suspends and dispatches nothing;
  the dispatch creates the worker and adds one to the counter; and the completion of
  a serving worker takes one from the counter, ends the worker, and by its
  notification leaves the scheduler not suspended, in a state that is reachable
  again.
\<close>

theorem counter_never_exceeds_maximum:
  assumes "reachable maxThr s" and "0 \<le> maxThr"
  shows "numThreads s \<le> maxThr
       \<and> (scheduler s = Spawning \<or> scheduler s = Incrementing \<longrightarrow> numThreads s < maxThr)
       \<and> (scheduler s = Waiting \<and> \<not> numThreads s < maxThr \<longrightarrow>
            Option.bind (schedulerStep maxThr s) (schedulerStep maxThr) =
              Some (s\<lparr>scheduler := Blocked\<rparr>)
            \<and> schedulerStep maxThr (s\<lparr>scheduler := Blocked\<rparr>) = None)
       \<and> (scheduler s = Spawning \<longrightarrow>
            dispatch maxThr s =
              Some (s\<lparr>numThreads := numThreads s + 1, scheduler := Accepting,
                      workers := workers s @ [Serving]\<rparr>))
       \<and> (i < length (workers s) \<and> workers s ! i = Serving \<longrightarrow>
            complete i s =
              Some (notify_one (s\<lparr>numThreads := numThreads s - 1,
                                   workers := (workers s)[i := Finished]\<rparr>))
            \<and> (\<forall>s'. complete i s = Some s' \<longrightarrow> reachable maxThr s' \<and> scheduler s' \<noteq> Blocked))"
proof -
  note inv = reachable_counterInv [OF assms]
  have bound: "numThreads s \<le> maxThr"
    and below: "scheduler s = Spawning \<or> scheduler s = Incrementing \<longrightarrow> numThreads s < maxThr"
    using inv by (simp_all add: counterInv_def admitted_def)
  have ended: "reachable maxThr s' \<and> scheduler s' \<noteq> Blocked"
    if i: "i < length (workers s)" and w: "workers s ! i = Serving" and c: "complete i s = Some s'"
    for s'
  proof -
    let ?s1 = "s\<lparr>workers := (workers s)[i := Decrementing (numThreads s)]\<rparr>"
    let ?s2 = "s\<lparr>numThreads := numThreads s - 1, workers := (workers s)[i := Notifying]\<rparr>"
    have 1: "workerStep i s = Some ?s1" using i w by (simp add: workerStep_def)
    have 2: "workerStep i ?s1 = Some ?s2" using i by (simp add: workerStep_def)
    have 3: "workerStep i ?s2 = Some s'"
      using c 1 2 by (simp add: complete_def)
    have "reachable maxThr ?s1" by (rule reachable.worker [OF assms(1) 1])
    then have "reachable maxThr ?s2" by (rule reachable.worker) (rule 2)
    then have r: "reachable maxThr s'" by (rule reachable.worker) (rule 3)
    have "s' = notify_one (s\<lparr>numThreads := numThreads s - 1, workers := (workers s)[i := Finished]\<rparr>)"
      using c complete_decrements [OF i w] by simp
    then have "scheduler s' \<noteq> Blocked" by (simp add: notify_one_def)
    with r show ?thesis by simp
  qed
  show ?thesis
    using bound below full_blocks [of s maxThr] dispatch_increments [of s maxThr]
      complete_decrements [of i s] ended
    by blast
qed

text \<open>
  With a maximum of one and one worker serving, the scheduler that has accepted the
  next connection suspends; the completion of the worker brings the counter to zero
  and wakes the scheduler, which then dispatches the next worker.
\<close>

theorem counter_never_exceeds_maximum_witness:
  "reachable 1 \<lparr>numThreads = 1, scheduler = Waiting, workers = [Serving]\<rparr>
   \<and> Option.bind (schedulerStep 1 \<lparr>numThreads = 1, scheduler = Waiting, workers = [Serving]\<rparr>)
        (schedulerStep 1) =
       Some \<lparr>numThreads = 1, scheduler = Blocked, workers = [Serving]\<rparr>
   \<and> schedulerStep 1 \<lparr>numThreads = 1, scheduler = Blocked, workers = [Serving]\<rparr> = None
   \<and> complete 0 \<lparr>numThreads = 1, scheduler = Blocked, workers = [Serving]\<rparr> =
       Some \<lparr>numThreads = 0, scheduler = Waiting, workers = [Finished]\<rparr>
   \<and> reachable 1 \<lparr>numThreads = 0, scheduler = Spawning, workers = [Finished]\<rparr>
   \<and> numThreads \<lparr>numThreads = 0, scheduler = Spawning, workers = [Finished]\<rparr> < 1
   \<and> dispatch 1 \<lparr>numThreads = 0, scheduler = Spawning, workers = [Finished]\<rparr> =
       Some \<lparr>numThreads = 1, scheduler = Accepting, workers = [Finished, Serving]\<rparr>"
proof -
  let ?full = "\<lparr>numThreads = 1, scheduler = Waiting, workers = [Serving]\<rparr>"
  let ?blocked = "\<lparr>numThreads = 1, scheduler = Blocked, workers = [Serving]\<rparr>"
  let ?woken = "\<lparr>numThreads = 0, scheduler = Waiting, workers = [Finished]\<rparr>"
  let ?admitted = "\<lparr>numThreads = 0, scheduler = Spawning, workers = [Finished]\<rparr>"
  have pos: "(0::int) \<le> 1" by simp
  have full: "Option.bind (schedulerStep 1 ?full) (schedulerStep 1) = Some ?blocked
              \<and> schedulerStep 1 ?blocked = None"
    using counter_never_exceeds_maximum [OF reachable_at_capacity pos, of 0] by simp
  have fin: "complete 0 ?blocked = Some ?woken \<and> reachable 1 ?woken"
    using counter_never_exceeds_maximum [OF reachable_blocked pos, of 0]
    by (simp add: notify_one_def)
  then have "reachable 1 ?woken" by simp
  then have adm: "reachable 1 ?admitted"
    by (rule reachable.scheduler) (simp add: schedulerStep_def)
  have disp: "numThreads ?admitted < 1
              \<and> dispatch 1 ?admitted =
                  Some \<lparr>numThreads = 1, scheduler = Accepting, workers = [Finished, Serving]\<rparr>"
    using counter_never_exceeds_maximum [OF adm pos, of 0] by simp
  show ?thesis using reachable_at_capacity full fin adm disp by simp
qed

end
